theory Spec2Isabelle
  imports
    Main
    "HOL-Library.Char_ord"
    "HOL-Library.List_Lexorder"
    "HOL-Library.Product_Lexorder"
    "HOL-Library.AList"
    "HOL-Library.Multiset"
begin

section \<open>TarFileExplorer: the path index and the navigation controller of tfe.py\<close>

text \<open>
  The development follows \<^verbatim>\<open>src/tfe.py\<close>. Strings are \<^typ>\<open>string\<close>, compared as Python
  compares \<^verbatim>\<open>str\<close> (lexicographically, character by character, a proper prefix first).
  The archive library, the widget toolkit, the message box and the system viewer are
  collaborators: the archive is the list of its members (name and \<^verbatim>\<open>isfile()\<close> flag) in
  archive order, and every call that leaves the program (extracting a member, writing a staged
  file, starting the viewer, asking for confirmation) is appended to a trace kept in the state.
\<close>

subsection \<open>Python string and list primitives\<close>

datatype py_error = ValueError | KeyError

text \<open>\<^verbatim>\<open>DELIMITER = os.path.sep\<close>; member paths are slash-delimited.\<close>

definition DELIMITER :: char where
  "DELIMITER = CHR ''/''"

text \<open>
  \<^verbatim>\<open>s.split(d)\<close> for a one-character separator: never empty, \<^verbatim>\<open>''.split(d) == ['']\<close>. The
  first branch of the inner case is never taken.
\<close>

fun py_split :: "char \<Rightarrow> string \<Rightarrow> string list" where
  "py_split d [] = [[]]"
| "py_split d (c # cs) =
     (if c = d then [] # py_split d cs
      else (case py_split d cs of
              [] \<Rightarrow> [[c]]
            | w # ws \<Rightarrow> (c # w) # ws))"

text \<open>\<^verbatim>\<open>d.join(xs)\<close>.\<close>

fun py_join :: "char \<Rightarrow> string list \<Rightarrow> string" where
  "py_join d [] = []"
| "py_join d [x] = x"
| "py_join d (x # y # ys) = x @ d # py_join d (y # ys)"

text \<open>\<^verbatim>\<open>DELIMITER.join(p.split(DELIMITER)[:-1])\<close>, used at lines 52, 107 and 177.\<close>

definition parent_path :: "string \<Rightarrow> string" where
  "parent_path p = py_join DELIMITER (butlast (py_split DELIMITER p))"

text \<open>\<^verbatim>\<open>p.split(DELIMITER)[-1]\<close>, the base filename of line 111; the split is never empty.\<close>

definition base_name :: "string \<Rightarrow> string" where
  "base_name p = last (py_split DELIMITER p)"

text \<open>\<^verbatim>\<open>s[-n:]\<close> for \<open>n > 0\<close>: the last \<open>n\<close> characters, all of \<open>s\<close> when it is shorter.\<close>

definition py_suffix :: "nat \<Rightarrow> string \<Rightarrow> string" where
  "py_suffix n s = drop (length s - n) s"

text \<open>
  \<^verbatim>\<open>s.lower()\<close> on ASCII: only \<^verbatim>\<open>A\<close>..\<^verbatim>\<open>Z\<close> change. No character outside ASCII is lowered to
  one of the letters of the six image suffixes, so for the comparison at line 151 nothing is
  lost.
\<close>

definition lower_char :: "char \<Rightarrow> char" where
  "lower_char c =
     (let n = (of_char c :: nat) in if 65 \<le> n \<and> n \<le> 90 then char_of (n + 32) else c)"

definition lower :: "string \<Rightarrow> string" where
  "lower s = map lower_char s"

subsection \<open>The archive collaborator\<close>

text \<open>A member is its name and the answer of \<^verbatim>\<open>isfile()\<close>.\<close>

type_synonym archive = "(string \<times> bool) list"

definition getnames :: "archive \<Rightarrow> string list" where
  "getnames arch = map fst arch"

text \<open>\<^verbatim>\<open>getmember(name).isfile()\<close>: the last member of that name, \<^verbatim>\<open>KeyError\<close> when there is
  none.\<close>

definition getmember_isfile :: "archive \<Rightarrow> string \<Rightarrow> py_error + bool" where
  "getmember_isfile arch name =
     (case map_of (rev arch) name of None \<Rightarrow> Inl KeyError | Some f \<Rightarrow> Inr f)"

subsection \<open>The path index: a \<^verbatim>\<open>defaultdict(lambda: [])\<close>\<close>

text \<open>
  A Python dictionary keeps its keys in insertion order; it is an association list with
  distinct keys. Reading a missing key of a \<^verbatim>\<open>defaultdict\<close> stores the default under that key
  and returns it.
\<close>

type_synonym tree_dict = "(string \<times> string list) list"

definition bucket :: "tree_dict \<Rightarrow> string \<Rightarrow> string list" where
  "bucket d k = (case map_of d k of None \<Rightarrow> [] | Some v \<Rightarrow> v)"

text \<open>\<^verbatim>\<open>d[k]\<close>: the value and the dictionary after the read.\<close>

definition dd_getitem :: "tree_dict \<Rightarrow> string \<Rightarrow> string list \<times> tree_dict" where
  "dd_getitem d k =
     (case map_of d k of
        None \<Rightarrow> ([], d @ [(k, [])])
      | Some v \<Rightarrow> (v, d))"

text \<open>\<^verbatim>\<open>d[k].append(v)\<close>.\<close>

definition dd_append :: "tree_dict \<Rightarrow> string \<Rightarrow> string \<Rightarrow> tree_dict" where
  "dd_append d k v = (let (l, d') = dd_getitem d k in AList.update k (l @ [v]) d')"

text \<open>
  Lines 51 to 57. At line 53 the sorted list of pairs is unzipped (\<^verbatim>\<open>zip\<close> applied to its
  unpacked elements): that yields one tuple per component when the sorted list is not empty and
  nothing at all when it is empty, and then the unpacking into two names raises
  \<^verbatim>\<open>ValueError\<close>.
\<close>

definition build_tree_dict :: "string list \<Rightarrow> py_error + tree_dict" where
  "build_tree_dict names =
     (let tar_files_pathes = names;
          tar_parents = map parent_path tar_files_pathes;
          srt = sort (zip tar_files_pathes tar_parents)
      in if srt = [] then Inl ValueError
         else
           let tar_files_pathes = map fst srt;
               tar_parents = map snd srt
           in Inr (fold (\<lambda>(parent, path_file) d. dd_append d parent path_file)
                     (zip tar_parents tar_files_pathes) []))"

subsection \<open>The explorer\<close>

datatype event =
    Extract string
  | WriteTmp string string
  | SystemViewer string
  | AskOkCancel

datatype canvas_item =
    TextItem int int
  | ImageItem string

record explorer =
  tar_root :: archive
  tree_dict :: tree_dict
  tmpdir :: string
  tmpdir_exists :: bool
  current_path :: string
  opened_at_least_one_tmp :: bool
  listbox :: "string list"
  cv :: "canvas_item list"
  window_open :: bool
  trace :: "event list"

text \<open>\<^verbatim>\<open>populate(L)\<close>: the list widget shows exactly \<open>L\<close>.\<close>

definition populate :: "string list \<Rightarrow> explorer \<Rightarrow> explorer" where
  "populate L s = s\<lparr>listbox := L\<rparr>"

text \<open>\<^verbatim>\<open>__init__\<close>; the first argument is the name of the fresh temporary directory.\<close>

definition init :: "string \<Rightarrow> archive \<Rightarrow> py_error + explorer" where
  "init tmp arch =
     (case build_tree_dict (getnames arch) of
        Inl e \<Rightarrow> Inl e
      | Inr d \<Rightarrow>
          (let (root, d') = dd_getitem d []
           in Inr (populate root
                \<lparr>tar_root = arch, tree_dict = d', tmpdir = tmp, tmpdir_exists = True,
                 current_path = [], opened_at_least_one_tmp = False, listbox = [],
                 cv = [], window_open = True, trace = []\<rparr>)))"

text \<open>\<^verbatim>\<open>dbl_click_listbox\<close>, with the selected entry as argument.\<close>

definition dbl_click_listbox :: "explorer \<Rightarrow> string \<Rightarrow> py_error + explorer" where
  "dbl_click_listbox s selection =
     (let enter = (\<lambda>selection.
            let s1 = s\<lparr>current_path := selection\<rparr>;
                (children, d') = dd_getitem (tree_dict s1) (current_path s1)
            in Inr (populate
                      ((if current_path s1 \<noteq> [] then [''..''] else []) @ children)
                      (s1\<lparr>tree_dict := d'\<rparr>)))
      in if selection = ''..'' then enter (parent_path (current_path s))
         else
           (case getmember_isfile (tar_root s) selection of
              Inl e \<Rightarrow> Inl e
            | Inr isfile \<Rightarrow>
                if isfile then
                  (let filepath = tmpdir s @ DELIMITER # base_name selection
                   in Inr (s\<lparr>opened_at_least_one_tmp := True,
                              trace := trace s @ [WriteTmp filepath selection,
                                                  SystemViewer filepath]\<rparr>))
                else enter selection))"

text \<open>\<^verbatim>\<open>click_listbox\<close>: the branch through which the handler leaves.\<close>

datatype preview_mode =
    TooSmall
  | ParentNoOp
  | PlaceholderDirectory
  | PlaceholderNonImageFile
  | ImagePreview

definition is_image_name :: "string \<Rightarrow> bool" where
  "is_image_name selection \<longleftrightarrow>
     lower (py_suffix 4 selection) \<in> set [''.png'', ''.tif'', ''.jpg''] \<or>
     lower (py_suffix 5 selection) \<in> set [''.jpeg'', ''.tiff'', ''.webp'']"

definition click_mode :: "archive \<Rightarrow> string \<Rightarrow> int \<Rightarrow> int \<Rightarrow> py_error + preview_mode" where
  "click_mode arch selection canvas_width canvas_height =
     (if min canvas_height canvas_width \<le> 50 then Inr TooSmall
      else if selection = ''..'' then Inr ParentNoOp
      else
        (case getmember_isfile arch selection of
           Inl e \<Rightarrow> Inl e
         | Inr isfile \<Rightarrow>
             if \<not> isfile then Inr PlaceholderDirectory
             else if \<not> is_image_name selection then Inr PlaceholderNonImageFile
             else Inr ImagePreview))"

text \<open>The handler itself; the three integers are the widths of the window and of the list
  widget and the height of the window.\<close>

definition click_listbox :: "explorer \<Rightarrow> string \<Rightarrow> int \<Rightarrow> int \<Rightarrow> int \<Rightarrow> py_error + explorer" where
  "click_listbox s selection window_width listbox_width window_height =
     (let canvas_width = window_width - listbox_width - 20;
          canvas_height = window_height - 20;
          s1 = s\<lparr>cv := []\<rparr>
      in case click_mode (tar_root s) selection canvas_width canvas_height of
           Inl e \<Rightarrow> Inl e
         | Inr TooSmall \<Rightarrow> Inr s1
         | Inr ParentNoOp \<Rightarrow> Inr s1
         | Inr PlaceholderDirectory \<Rightarrow> Inr (s1\<lparr>cv := [TextItem (canvas_width div 2) 20]\<rparr>)
         | Inr PlaceholderNonImageFile \<Rightarrow> Inr (s1\<lparr>cv := [TextItem (canvas_width div 2) 20]\<rparr>)
         | Inr ImagePreview \<Rightarrow> Inr (s1\<lparr>cv := [ImageItem selection]\<rparr>))"

text \<open>
  The loop of lines 180 to 184 over the queue \<^verbatim>\<open>recursive_extract\<close>. Nothing bounds the
  number of its rounds, so the model is a partial function: \<open>None\<close> is a loop that never ends.
\<close>

partial_function (option) extract_loop ::
    "tree_dict \<Rightarrow> string list \<Rightarrow> event list \<Rightarrow> (tree_dict \<times> event list) option" where
  "extract_loop d recursive_extract tr =
     (case recursive_extract of
        [] \<Rightarrow> Some (d, tr)
      | s # rest \<Rightarrow>
          (let (children, d') = dd_getitem d s
           in extract_loop d' (rest @ children) (tr @ [Extract s])))"

declare extract_loop.simps [code]

text \<open>\<^verbatim>\<open>extract_selection\<close>; \<open>None\<close> when the loop does not end.\<close>

definition extract_selection :: "explorer \<Rightarrow> string \<Rightarrow> (py_error + explorer) option" where
  "extract_selection s selection =
     (if selection = ''..'' then Some (Inr s)
      else
        (case getmember_isfile (tar_root s) selection of
           Inl e \<Rightarrow> Some (Inl e)
         | Inr isfile \<Rightarrow>
             if isfile then
               Some (Inr (s\<lparr>trace := trace s @ [Extract selection,
                                                  SystemViewer (parent_path selection)]\<rparr>))
             else
               (case extract_loop (tree_dict s) [selection] [] of
                  None \<Rightarrow> None
                | Some (d', evs) \<Rightarrow>
                    Some (Inr (s\<lparr>tree_dict := d',
                                 trace := trace s @ evs @ [SystemViewer selection]\<rparr>)))))"

text \<open>\<^verbatim>\<open>on_close\<close>; \<open>answer\<close> is what the user replies if the confirmation box is shown. The
  box is shown only when the first disjunct is false.\<close>

definition on_close :: "explorer \<Rightarrow> bool \<Rightarrow> explorer" where
  "on_close s answer =
     (if \<not> opened_at_least_one_tmp s
      then s\<lparr>tmpdir_exists := False, window_open := False\<rparr>
      else
        (let s1 = s\<lparr>trace := trace s @ [AskOkCancel]\<rparr>
         in if answer then s1\<lparr>tmpdir_exists := False, window_open := False\<rparr> else s1))"

subsection \<open>The event loop\<close>

text \<open>
  The bindings of lines 68 to 82: a handler runs for each user action while the window is open.
  The toolkit reports an exception raised by a handler and goes on with the fields as they
  were when it was raised; all three handlers that can raise do so before they assign any field,
  \<^verbatim>\<open>click_listbox\<close> after it has cleared the canvas.
\<close>

datatype action =
    DblClick string
  | Click string int int int
  | ExtractSelection string
  | Close bool

definition step :: "explorer \<Rightarrow> action \<Rightarrow> (py_error + explorer) option" where
  "step s a =
     (case a of
        DblClick selection \<Rightarrow> Some (dbl_click_listbox s selection)
      | Click selection ww lw wh \<Rightarrow> Some (click_listbox s selection ww lw wh)
      | ExtractSelection selection \<Rightarrow> extract_selection s selection
      | Close answer \<Rightarrow> Some (Inr (on_close s answer)))"

definition after_exception :: "explorer \<Rightarrow> action \<Rightarrow> explorer" where
  "after_exception s a = (case a of Click selection ww lw wh \<Rightarrow> s\<lparr>cv := []\<rparr> | _ \<Rightarrow> s)"

inductive reachable :: "explorer \<Rightarrow> bool" where
  start: "init tmp arch = Inr s \<Longrightarrow> reachable s"
| handled: "reachable s \<Longrightarrow> window_open s \<Longrightarrow> step s a = Some (Inr s') \<Longrightarrow> reachable s'"
| raised: "reachable s \<Longrightarrow> window_open s \<Longrightarrow> step s a = Some (Inl e) \<Longrightarrow>
           reachable (after_exception s a)"

subsection \<open>Notions of the specification\<close>

text \<open>The number of segments of a path.\<close>

definition depth :: "string \<Rightarrow> nat" where
  "depth p = length (py_split DELIMITER p)"

text \<open>
  The descendants of a selected path among the member names: the selection itself, and every
  member whose parent path is a descendant.
\<close>

inductive descendant :: "string list \<Rightarrow> string \<Rightarrow> string \<Rightarrow> bool"
  for names :: "string list" and selection :: string where
  self: "descendant names selection selection"
| child: "descendant names selection p \<Longrightarrow> c \<in> set names \<Longrightarrow> parent_path c = p \<Longrightarrow>
          descendant names selection c"

text \<open>A quick-view file was opened: the trace holds a write into the staging area.\<close>

fun is_WriteTmp :: "event \<Rightarrow> bool" where
  "is_WriteTmp (WriteTmp filepath member) = True"
| "is_WriteTmp e = False"

definition ever_opened_tmp :: "explorer \<Rightarrow> bool" where
  "ever_opened_tmp s \<longleftrightarrow> list_ex is_WriteTmp (trace s)"

text \<open>The children of a path in the index: the sorted members whose parent path it is.\<close>

definition children_of :: "string list \<Rightarrow> string \<Rightarrow> string list" where
  "children_of names k = filter (\<lambda>p. parent_path p = k) (sort names)"

text \<open>Level order over a children function: the queue, then the level order of all its
  children, for a given number of levels.\<close>

definition next_level :: "(string \<Rightarrow> string list) \<Rightarrow> string list \<Rightarrow> string list" where
  "next_level ch q = concat (map ch q)"

fun level_order :: "(string \<Rightarrow> string list) \<Rightarrow> nat \<Rightarrow> string list \<Rightarrow> string list" where
  "level_order ch 0 q = []"
| "level_order ch (Suc n) q = q @ level_order ch n (next_level ch q)"

subsection \<open>Example sessions\<close>

text \<open>The archive of the scenario of the specification, with its directory entry.\<close>

definition scenario_archive :: archive where
  "scenario_archive =
     [(''a'', False), (''a/b.png'', True), (''a/c.txt'', True), (''d.txt'', True)]"

definition scenario_state :: explorer where
  "scenario_state =
     \<lparr>tar_root = scenario_archive,
      tree_dict = [([], [''a'', ''d.txt'']), (''a'', [''a/b.png'', ''a/c.txt''])],
      tmpdir = ''/tmp/tfe'', tmpdir_exists = True, current_path = [],
      opened_at_least_one_tmp = False, listbox = [''a'', ''d.txt''],
      cv = [], window_open = True, trace = []\<rparr>"

text \<open>The scenario after the quick view of \<^verbatim>\<open>d.txt\<close>.\<close>

definition opened_state :: explorer where
  "opened_state =
     scenario_state\<lparr>opened_at_least_one_tmp := True,
       trace := [WriteTmp ''/tmp/tfe/d.txt'' ''d.txt'', SystemViewer ''/tmp/tfe/d.txt'']\<rparr>"

text \<open>An archive that holds the member \<^verbatim>\<open>a/b\<close> twice, as appending a newer version of a
  file does, loaded.\<close>

definition dup_archive :: archive where
  "dup_archive = [(''a'', False), (''a/b'', True), (''a/b'', True)]"

definition dup_state :: explorer where
  "dup_state =
     \<lparr>tar_root = dup_archive,
      tree_dict = [([], [''a'']), (''a'', [''a/b'', ''a/b''])],
      tmpdir = ''/tmp/tfe'', tmpdir_exists = True, current_path = [],
      opened_at_least_one_tmp = False, listbox = [''a''],
      cv = [], window_open = True, trace = []\<rparr>"

text \<open>An archive with two subtrees of different depth under \<^verbatim>\<open>a\<close>, loaded.\<close>

definition deep_archive :: archive where
  "deep_archive =
     [(''a'', False), (''a/b'', False), (''a/b/x'', False), (''a/b/x/z'', True),
      (''a/c'', False), (''a/c/y'', True)]"

definition deep_state :: explorer where
  "deep_state =
     \<lparr>tar_root = deep_archive,
      tree_dict = [([], [''a'']), (''a'', [''a/b'', ''a/c'']), (''a/b'', [''a/b/x'']),
                   (''a/b/x'', [''a/b/x/z'']), (''a/c'', [''a/c/y''])],
      tmpdir = ''/tmp/tfe'', tmpdir_exists = True, current_path = [],
      opened_at_least_one_tmp = False, listbox = [''a''],
      cv = [], window_open = True, trace = []\<rparr>"

text \<open>An archive in which the directory \<^verbatim>\<open>a/b\<close> between \<^verbatim>\<open>a\<close> and \<^verbatim>\<open>a/b/c\<close> has no entry of its
  own, loaded.\<close>

definition gap_archive :: archive where
  "gap_archive = [(''a'', False), (''a/b/c'', True)]"

definition gap_state :: explorer where
  "gap_state =
     \<lparr>tar_root = gap_archive,
      tree_dict = [([], [''a'']), (''a/b'', [''a/b/c''])],
      tmpdir = ''/tmp/tfe'', tmpdir_exists = True, current_path = [],
      opened_at_least_one_tmp = False, listbox = [''a''],
      cv = [], window_open = True, trace = []\<rparr>"

text \<open>
  The classification of a preview as the specification words it: from whether the preview area
  is too small, whether the selection is the parent marker, whether it is a file, and the
  lower-cased last five characters of its name.
\<close>

definition preview_classification :: "bool \<Rightarrow> bool \<Rightarrow> bool \<Rightarrow> string \<Rightarrow> preview_mode" where
  "preview_classification too_small is_parent_marker is_file suffix =
     (if too_small then TooSmall
      else if is_parent_marker then ParentNoOp
      else if \<not> is_file then PlaceholderDirectory
      else if py_suffix 4 suffix \<in> set [''.png'', ''.tif'', ''.jpg'']
            \<or> suffix \<in> set [''.jpeg'', ''.tiff'', ''.webp''] then ImagePreview
      else PlaceholderNonImageFile)"

section \<open>Properties\<close>

subsection \<open>Splitting and joining paths\<close>

lemma py_split_not_Nil: "py_split d s \<noteq> []"
  by (induction s) (auto split: list.splits)

lemma py_split_no_delimiter: "x \<in> set (py_split d s) \<Longrightarrow> d \<notin> set x"
  by (induction s arbitrary: x) (auto split: list.splits if_splits)

lemma py_join_py_split: "py_join d (py_split d s) = s"
proof (induction s)
  case Nil
  show ?case by simp
next
  case (Cons c cs)
  obtain w ws where ws: "py_split d cs = w # ws"
    using py_split_not_Nil [of d cs] by (cases "py_split d cs") auto
  with Cons show ?case by (cases ws) auto
qed

lemma length_py_split: "length (py_split d s) = Suc (length (filter (\<lambda>c. c = d) s))"
  by (induction s) (auto split: list.splits simp: py_split_not_Nil)

lemma py_split_single: "d \<notin> set s \<Longrightarrow> py_split d s = [s]"
  by (induction s) auto

lemma py_split_append: "py_split d (xs @ d # ys) = py_split d xs @ py_split d ys"
  by (induction xs) (auto split: list.splits simp: py_split_not_Nil)

lemma py_join_snoc: "xs \<noteq> [] \<Longrightarrow> py_join d (xs @ [y]) = py_join d xs @ d # y"
  by (induction d xs rule: py_join.induct) auto

lemma py_split_py_join:
  "xs \<noteq> [] \<Longrightarrow> \<forall>x \<in> set xs. d \<notin> set x \<Longrightarrow> py_split d (py_join d xs) = xs"
proof (induction xs rule: rev_induct)
  case Nil
  then show ?case by simp
next
  case (snoc y xs)
  show ?case
  proof (cases "xs = []")
    case True
    with snoc.prems show ?thesis by (simp add: py_split_single)
  next
    case False
    with snoc show ?thesis
      by (simp add: py_join_snoc py_split_append py_split_single)
  qed
qed

lemma parent_path_no_delimiter: "DELIMITER \<notin> set p \<Longrightarrow> parent_path p = []"
  by (simp add: parent_path_def py_split_single)

lemma path_decompose:
  assumes "2 \<le> length (py_split DELIMITER p)"
  shows "p = parent_path p @ DELIMITER # base_name p"
proof -
  let ?xs = "py_split DELIMITER p"
  have ne: "?xs \<noteq> []" by (rule py_split_not_Nil)
  have b: "butlast ?xs \<noteq> []" using assms by (cases ?xs rule: rev_cases) auto
  have "p = py_join DELIMITER (butlast ?xs @ [last ?xs])"
    using ne by (simp add: py_join_py_split)
  then show ?thesis
    using b by (simp add: py_join_snoc parent_path_def base_name_def del: append_butlast_last_id)
qed

lemma py_join_eq_Nil: "py_join d xs = [] \<longleftrightarrow> xs = [] \<or> xs = [[]]"
  by (induction d xs rule: py_join.induct) auto

lemma parent_path_eq_Nil:
  "parent_path p = [] \<longleftrightarrow>
     length (py_split DELIMITER p) = 1 \<or>
     (length (py_split DELIMITER p) = 2 \<and> hd (py_split DELIMITER p) = [])"
proof -
  let ?xs = "py_split DELIMITER p"
  obtain ys y where xs: "?xs = ys @ [y]"
    using py_split_not_Nil [of DELIMITER p] by (cases ?xs rule: rev_cases) auto
  show ?thesis
    unfolding parent_path_def py_join_eq_Nil xs
    by (cases ys) auto
qed

lemma py_split_parent_path:
  assumes "parent_path p \<noteq> []"
  shows "py_split DELIMITER (parent_path p) = butlast (py_split DELIMITER p)"
proof -
  have b: "butlast (py_split DELIMITER p) \<noteq> []"
    using assms by (auto simp: parent_path_def)
  have "\<forall>x \<in> set (butlast (py_split DELIMITER p)). DELIMITER \<notin> set x"
    by (meson in_set_butlastD py_split_no_delimiter)
  with b show ?thesis
    unfolding parent_path_def by (rule py_split_py_join)
qed

lemma depth_parent_path: "parent_path p \<noteq> [] \<Longrightarrow> depth p = Suc (depth (parent_path p))"
  using py_split_not_Nil [of DELIMITER p]
  by (simp add: depth_def py_split_parent_path)

lemma depth_le: "depth p \<le> Suc (length p)"
  by (simp add: depth_def length_py_split)

lemma base_name_no_delimiter: "DELIMITER \<notin> set (base_name p)"
  unfolding base_name_def
  by (meson last_in_set py_split_no_delimiter py_split_not_Nil)

subsection \<open>The dictionary\<close>

lemma fst_dd_getitem: "fst (dd_getitem d k) = bucket d k"
  by (simp add: dd_getitem_def bucket_def split: option.splits)

lemma map_of_dd_getitem:
  "map_of (snd (dd_getitem d k)) = (case map_of d k of None \<Rightarrow> (map_of d)(k \<mapsto> []) | Some v \<Rightarrow> map_of d)"
  by (auto simp: dd_getitem_def map_add_def fun_eq_iff split: option.splits)

lemma bucket_dd_getitem: "bucket (snd (dd_getitem d k)) k' = bucket d k'"
  by (simp add: bucket_def map_of_dd_getitem split: option.splits)

lemma map_of_dd_getitem_Some:
  "map_of d k' = Some v \<Longrightarrow> map_of (snd (dd_getitem d k)) k' = Some v"
  by (auto simp: map_of_dd_getitem split: option.splits)

lemma keys_dd_getitem:
  "map fst (snd (dd_getitem d k)) = (if k \<in> set (map fst d) then map fst d else map fst d @ [k])"
  by (force simp: dd_getitem_def map_of_eq_None_iff split: option.splits dest!: map_of_SomeD)

lemma distinct_dd_getitem:
  "distinct (map fst d) \<Longrightarrow> distinct (map fst (snd (dd_getitem d k)))"
  by (simp add: keys_dd_getitem)

lemma bucket_dd_append:
  "bucket (dd_append d k v) k' = (if k' = k then bucket d k @ [v] else bucket d k')"
proof -
  obtain l d' where g: "dd_getitem d k = (l, d')" by (cases "dd_getitem d k")
  have l: "l = bucket d k" using fst_dd_getitem [of d k] g by simp
  have d': "\<And>j. bucket d' j = bucket d j" using bucket_dd_getitem [of d k] g by simp
  show ?thesis
    using d' [of k'] by (simp add: dd_append_def g l bucket_def update_conv')
qed

lemma distinct_dd_append:
  "distinct (map fst d) \<Longrightarrow> distinct (map fst (dd_append d k v))"
  by (simp add: dd_append_def distinct_update distinct_dd_getitem split: prod.splits)
     (metis distinct_dd_getitem distinct_update snd_conv)

lemma bucket_fold_dd_append:
  "bucket (fold (\<lambda>(parent, path_file) d. dd_append d parent path_file)
             (map (\<lambda>p. (f p, p)) xs) d) k
   = bucket d k @ filter (\<lambda>p. f p = k) xs"
  by (induction xs arbitrary: d) (auto simp: bucket_dd_append)

lemma distinct_fold_dd_append:
  "distinct (map fst d) \<Longrightarrow>
   distinct (map fst (fold (\<lambda>(parent, path_file) d. dd_append d parent path_file) xs d))"
  by (induction xs arbitrary: d) (auto simp: distinct_dd_append)

lemma sort_zip_parents:
  "sort (zip names (map f names)) = map (\<lambda>p. (p, f p)) (sort names)"
proof -
  have z: "zip names (map f names) = map (\<lambda>p. (p, f p)) names"
    by (induction names) auto
  have "sorted (map (\<lambda>p. (p, f p)) (sort names))"
  proof -
    have "sorted_wrt (\<lambda>p q. (p, f p) \<le> (q, f q)) (sort names)"
      by (rule sorted_wrt_mono_rel [of _ "(\<le>)"]) (auto simp: less_eq_prod_def order_le_less)
    then show ?thesis by (simp add: sorted_wrt_map)
  qed
  moreover have "mset (map (\<lambda>p. (p, f p)) (sort names)) = mset (zip names (map f names))"
    unfolding z mset_map by (simp only: mset_sort)
  ultimately show ?thesis
    by (metis properties_for_sort)
qed

lemma build_tree_dict_eq:
  assumes "names \<noteq> []"
  shows "build_tree_dict names =
           Inr (fold (\<lambda>(parent, path_file) d. dd_append d parent path_file)
                  (map (\<lambda>p. (parent_path p, p)) (sort names)) [])"
proof -
  have ne: "sort names \<noteq> []"
    using assms by (metis length_sort length_0_conv)
  have "zip (map snd (map (\<lambda>p. (p, parent_path p)) xs))
            (map fst (map (\<lambda>p. (p, parent_path p)) xs))
        = map (\<lambda>p. (parent_path p, p)) xs" for xs
    by (induction xs) auto
  then show ?thesis
    using ne by (simp add: build_tree_dict_def Let_def sort_zip_parents o_def zip_map_map)
qed

lemma build_tree_dict_bucket:
  assumes "build_tree_dict names = Inr d"
  shows "bucket d k = filter (\<lambda>p. parent_path p = k) (sort names)"
    and "distinct (map fst d)"
proof -
  have ne: "names \<noteq> []"
    using assms by (auto simp: build_tree_dict_def Let_def split: if_splits)
  have d: "d = fold (\<lambda>(parent, path_file) d. dd_append d parent path_file)
                  (map (\<lambda>p. (parent_path p, p)) (sort names)) []"
    using assms build_tree_dict_eq [OF ne] by simp
  show "bucket d k = filter (\<lambda>p. parent_path p = k) (sort names)"
    unfolding d bucket_fold_dd_append by (simp add: bucket_def)
  show "distinct (map fst d)"
    unfolding d by (rule distinct_fold_dd_append) simp
qed

lemma dd_getitem_appends: "\<exists>new. snd (dd_getitem d k) = d @ map (\<lambda>k. (k, [])) new"
proof (cases "map_of d k")
  case None
  then have "snd (dd_getitem d k) = d @ map (\<lambda>k. (k, [])) [k]"
    by (simp add: dd_getitem_def)
  then show ?thesis by blast
next
  case (Some v)
  then have "snd (dd_getitem d k) = d @ map (\<lambda>k. (k, [])) []"
    by (simp add: dd_getitem_def)
  then show ?thesis by blast
qed

lemma bucket_append_empty:
  fixes d :: tree_dict
  shows "bucket (d @ map (\<lambda>k. (k, [])) new) k = bucket d k"
proof -
  have "map_of (map (\<lambda>k. (k, [] :: string list)) new) k = None
      \<or> map_of (map (\<lambda>k. (k, [] :: string list)) new) k = Some []"
    by (induction new) auto
  then show ?thesis
    by (auto simp: bucket_def map_add_def split: option.splits)
qed

subsection \<open>Loading an archive\<close>

lemma init_scenario: "init ''/tmp/tfe'' scenario_archive = Inr scenario_state"
  by code_simp

lemma reachable_scenario: "reachable scenario_state"
  by (rule reachable.start [OF init_scenario])

text \<open>
  C4. Building the index of an archive without members should succeed and give an empty root
  entry. It does not: the sorted list of pairs is empty, unzipping it yields nothing, and the
  unpacking into two names at line 53 raises \<^verbatim>\<open>ValueError\<close> before the index exists.
\<close>

theorem init_empty_archive_raises: "init tmp [] = Inl ValueError"
  by (simp add: init_def build_tree_dict_def getnames_def)

subsection \<open>The handlers\<close>

lemma dbl_click_listbox_parent:
  "dbl_click_listbox s ''..'' =
     Inr (s\<lparr>current_path := parent_path (current_path s),
            tree_dict := snd (dd_getitem (tree_dict s) (parent_path (current_path s))),
            listbox := (if parent_path (current_path s) \<noteq> [] then [''..''] else [])
                       @ bucket (tree_dict s) (parent_path (current_path s))\<rparr>)"
  by (simp add: dbl_click_listbox_def populate_def Let_def case_prod_beta fst_dd_getitem)

lemma dbl_click_listbox_directory:
  assumes "selection \<noteq> ''..''" and "getmember_isfile (tar_root s) selection = Inr False"
  shows "dbl_click_listbox s selection =
     Inr (s\<lparr>current_path := selection,
            tree_dict := snd (dd_getitem (tree_dict s) selection),
            listbox := (if selection \<noteq> [] then [''..''] else [])
                       @ bucket (tree_dict s) selection\<rparr>)"
  using assms
  by (simp add: dbl_click_listbox_def populate_def Let_def case_prod_beta fst_dd_getitem)

lemma dbl_click_listbox_file:
  assumes "selection \<noteq> ''..''" and "getmember_isfile (tar_root s) selection = Inr True"
  shows "dbl_click_listbox s selection =
     Inr (s\<lparr>opened_at_least_one_tmp := True,
            trace := trace s @ [WriteTmp (tmpdir s @ DELIMITER # base_name selection) selection,
                                SystemViewer (tmpdir s @ DELIMITER # base_name selection)]\<rparr>)"
  using assms by (simp add: dbl_click_listbox_def Let_def)

lemma extract_loop_result:
  assumes "extract_loop d q tr = Some r"
  shows "\<exists>new xs. r = (d @ map (\<lambda>k. (k, [])) new, tr @ map Extract xs)"
proof (rule extract_loop.raw_induct
    [where P = "\<lambda>d q tr r. \<exists>new xs. r = (d @ map (\<lambda>k. (k, [])) new, tr @ map Extract xs)",
      OF _ assms])
  fix loop :: "tree_dict \<Rightarrow> string list \<Rightarrow> event list \<Rightarrow> (tree_dict \<times> event list) option"
  fix d q tr r
  assume IH: "\<And>d q tr r. loop d q tr = Some r \<Longrightarrow>
      \<exists>new xs. r = (d @ map (\<lambda>k. (k, [])) new, tr @ map Extract xs)"
  assume eq: "(case q of [] \<Rightarrow> Some (d, tr)
      | s # rest \<Rightarrow> let (children, d') = dd_getitem d s
          in loop d' (rest @ children) (tr @ [Extract s])) = Some r"
  show "\<exists>new xs. r = (d @ map (\<lambda>k. (k, [])) new, tr @ map Extract xs)"
  proof (cases q)
    case Nil
    with eq have "r = (d @ map (\<lambda>k. (k, [])) [], tr @ map Extract [])" by auto
    then show ?thesis by blast
  next
    case (Cons x rest)
    obtain children d1 where g: "dd_getitem d x = (children, d1)"
      by (cases "dd_getitem d x")
    obtain n1 where n1: "d1 = d @ map (\<lambda>k. (k, [])) n1"
      using dd_getitem_appends [of d x] g by auto
    from eq Cons g have "loop d1 (rest @ children) (tr @ [Extract x]) = Some r" by simp
    from IH [OF this] obtain n2 xs
      where "r = (d1 @ map (\<lambda>k. (k, [])) n2, (tr @ [Extract x]) @ map Extract xs)" by blast
    then have "r = (d @ map (\<lambda>k. (k, [])) (n1 @ n2), tr @ map Extract (x # xs))"
      using n1 by simp
    then show ?thesis by blast
  qed
qed

text \<open>What a handler that returns leaves of the state.\<close>

lemma step_frame:
  assumes "step s a = Some (Inr s')"
  shows "tar_root s' = tar_root s"
    and "\<exists>new. tree_dict s' = tree_dict s @ map (\<lambda>k. (k, [])) new"
    and "opened_at_least_one_tmp s = ever_opened_tmp s \<Longrightarrow>
         opened_at_least_one_tmp s' = ever_opened_tmp s'"
proof -
  have "tar_root s' = tar_root s
      \<and> (\<exists>new. tree_dict s' = tree_dict s @ map (\<lambda>k. (k, [])) new)
      \<and> (opened_at_least_one_tmp s = ever_opened_tmp s \<longrightarrow>
         opened_at_least_one_tmp s' = ever_opened_tmp s')"
  proof (cases a)
    case (DblClick selection)
    have g: "\<exists>new. snd (dd_getitem (tree_dict s) k) = tree_dict s @ map (\<lambda>k. (k, [])) new" for k
      by (rule dd_getitem_appends)
    have e: "\<exists>new. tree_dict s = tree_dict s @ map (\<lambda>k. (k, [])) new"
      by (rule exI [of _ "[]"]) simp
    show ?thesis
    proof (cases "selection = ''..''")
      case True
      with assms DblClick g show ?thesis
        by (auto simp: step_def dbl_click_listbox_parent ever_opened_tmp_def)
    next
      case False
      show ?thesis
      proof (cases "getmember_isfile (tar_root s) selection")
        case (Inl err)
        with assms DblClick False show ?thesis
          by (simp add: step_def dbl_click_listbox_def)
      next
        case (Inr isfile)
        show ?thesis
        proof (cases isfile)
          case True
          with assms DblClick False Inr e show ?thesis
            by (auto simp: step_def dbl_click_listbox_file ever_opened_tmp_def)
        next
          case False
          with assms DblClick \<open>selection \<noteq> ''..''\<close> Inr g show ?thesis
            by (auto simp: step_def dbl_click_listbox_directory ever_opened_tmp_def)
        qed
      qed
    qed
  next
    case (Click selection ww lw wh)
    have e: "\<exists>new. tree_dict s = tree_dict s @ map (\<lambda>k. (k, [])) new"
      by (rule exI [of _ "[]"]) simp
    from assms Click e show ?thesis
      by (auto simp: step_def click_listbox_def Let_def ever_opened_tmp_def
          split: sum.splits preview_mode.splits)
  next
    case (ExtractSelection selection)
    have e: "\<exists>new. tree_dict s = tree_dict s @ map (\<lambda>k. (k, [])) new"
      by (rule exI [of _ "[]"]) simp
    show ?thesis
    proof (cases "selection \<noteq> ''..'' \<and> getmember_isfile (tar_root s) selection = Inr False")
      case False
      with assms ExtractSelection e show ?thesis
        by (auto simp: step_def extract_selection_def ever_opened_tmp_def
            split: sum.splits if_splits)
    next
      case True
      with assms ExtractSelection obtain r
        where r: "extract_loop (tree_dict s) [selection] [] = Some r"
          and s': "s' = s\<lparr>tree_dict := fst r, trace := trace s @ snd r @ [SystemViewer selection]\<rparr>"
        by (auto simp: step_def extract_selection_def split: option.splits)
      from extract_loop_result [OF r] obtain new xs
        where "r = (tree_dict s @ map (\<lambda>k. (k, [])) new, [] @ map Extract xs)" by blast
      with s' show ?thesis
        by (auto simp: ever_opened_tmp_def list_ex_iff)
    qed
  next
    case (Close answer)
    have e: "\<exists>new. tree_dict s = tree_dict s @ map (\<lambda>k. (k, [])) new"
      by (rule exI [of _ "[]"]) simp
    from assms Close e show ?thesis
      by (auto simp: step_def on_close_def Let_def ever_opened_tmp_def)
  qed
  then show "tar_root s' = tar_root s"
    and "\<exists>new. tree_dict s' = tree_dict s @ map (\<lambda>k. (k, [])) new"
    and "opened_at_least_one_tmp s = ever_opened_tmp s \<Longrightarrow>
         opened_at_least_one_tmp s' = ever_opened_tmp s'"
    by blast+
qed

lemma init_state:
  assumes "init tmp arch = Inr s"
  shows "tar_root s = arch" and "current_path s = []" and "trace s = []"
    and "\<not> opened_at_least_one_tmp s" and "window_open s" and "tmpdir_exists s"
    and "listbox s = bucket (tree_dict s) []"
    and "bucket (tree_dict s) k = filter (\<lambda>p. parent_path p = k) (sort (getnames arch))"
    and "arch \<noteq> []"
proof -
  from assms obtain d where d: "build_tree_dict (getnames arch) = Inr d"
    by (auto simp: init_def split: sum.splits)
  from assms d have s: "s = \<lparr>tar_root = arch, tree_dict = snd (dd_getitem d []), tmpdir = tmp,
      tmpdir_exists = True, current_path = [], opened_at_least_one_tmp = False,
      listbox = fst (dd_getitem d []), cv = [], window_open = True, trace = []\<rparr>"
    by (auto simp: init_def populate_def split: prod.splits)
  show "tar_root s = arch" "current_path s = []" "trace s = []"
    "\<not> opened_at_least_one_tmp s" "window_open s" "tmpdir_exists s"
    by (simp_all add: s)
  show "listbox s = bucket (tree_dict s) []"
    by (simp add: s fst_dd_getitem bucket_dd_getitem)
  show "bucket (tree_dict s) k = filter (\<lambda>p. parent_path p = k) (sort (getnames arch))"
    by (simp add: s bucket_dd_getitem build_tree_dict_bucket(1) [OF d])
  show "arch \<noteq> []"
    using d by (auto simp: build_tree_dict_def getnames_def)
qed

lemma after_exception_frame:
  "tar_root (after_exception s a) = tar_root s"
  "tree_dict (after_exception s a) = tree_dict s"
  "trace (after_exception s a) = trace s"
  "opened_at_least_one_tmp (after_exception s a) = opened_at_least_one_tmp s"
  by (simp_all add: after_exception_def split: action.splits)

lemma reachable_invariant:
  assumes "reachable s"
  shows "bucket (tree_dict s) k = filter (\<lambda>p. parent_path p = k) (sort (getnames (tar_root s)))"
    and "opened_at_least_one_tmp s = ever_opened_tmp s"
    and "tar_root s \<noteq> []"
  using assms
proof (induction arbitrary: k rule: reachable.induct)
  case (start tmp arch s)
  {
    case 1
    show ?case using init_state(1,8) [OF start] by simp
  next
    case 2
    show ?case using init_state(3,4) [OF start] by (simp add: ever_opened_tmp_def)
  next
    case 3
    show ?case using init_state(1,9) [OF start] by simp
  }
next
  case (handled s a s')
  {
    case 1
    from step_frame(2) [OF handled(3)] obtain new
      where "tree_dict s' = tree_dict s @ map (\<lambda>k. (k, [])) new" by blast
    then show ?case
      using handled.IH(1) [of k] step_frame(1) [OF handled(3)]
      by (simp add: bucket_append_empty)
  next
    case 2
    show ?case using step_frame(3) [OF handled(3)] handled.IH(2) by simp
  next
    case 3
    show ?case using step_frame(1) [OF handled(3)] handled.IH(3) by simp
  }
next
  case (raised s a e)
  {
    case 1
    show ?case using raised.IH(1) [of k] by (simp add: after_exception_frame)
  next
    case 2
    show ?case using raised.IH(2) by (simp add: after_exception_frame ever_opened_tmp_def)
  next
    case 3
    show ?case using raised.IH(3) by (simp add: after_exception_frame)
  }
qed

subsection \<open>The path index\<close>

text \<open>
  C1, as stated, fails: the member \<^verbatim>\<open>/a\<close> has two segments, the empty one and \<^verbatim>\<open>a\<close>, its
  parent path is the empty string, and so the root bucket holds a path that is not a
  single segment.
\<close>

theorem root_bucket_not_single_segment:
  "build_tree_dict (getnames [(''/a'', True)]) = Inr [([], [''/a''])]
   \<and> bucket [([], [''/a''])] [] = [''/a'']
   \<and> py_split DELIMITER ''/a'' = [[], ''a'']
   \<and> depth ''/a'' = 2"
  by (simp add: depth_def build_tree_dict_def getnames_def parent_path_def DELIMITER_def
      dd_append_def dd_getitem_def bucket_def)

text \<open>
  C1, amended. For every member list that is not empty the index is built, its keys are
  distinct, the bucket of a key is the sorted member list restricted to the paths whose parent
  path is the key, so every member path is in the bucket of its parent path and in no other,
  and the root bucket holds exactly the members whose parent path is empty: those of a single
  segment and those of two segments whose first segment is empty.
\<close>

theorem path_index_buckets:
  assumes "names \<noteq> []"
  shows "\<exists>d. build_tree_dict names = Inr d
           \<and> distinct (map fst d)
           \<and> (\<forall>k. bucket d k = filter (\<lambda>p. parent_path p = k) (sort names))
           \<and> (\<forall>p k. p \<in> set (bucket d k) \<longleftrightarrow> p \<in> set names \<and> k = parent_path p)
           \<and> (\<forall>p. p \<in> set (bucket d []) \<longleftrightarrow>
                  p \<in> set names \<and>
                  (depth p = 1 \<or> depth p = 2 \<and> hd (py_split DELIMITER p) = []))"
proof -
  obtain d where d: "build_tree_dict names = Inr d"
    using build_tree_dict_eq [OF assms] by blast
  have b: "bucket d k = filter (\<lambda>p. parent_path p = k) (sort names)" for k
    by (rule build_tree_dict_bucket(1) [OF d])
  have m: "p \<in> set (bucket d k) \<longleftrightarrow> p \<in> set names \<and> k = parent_path p" for p k
    by (auto simp: b)
  have r: "p \<in> set (bucket d []) \<longleftrightarrow>
      p \<in> set names \<and> (depth p = 1 \<or> depth p = 2 \<and> hd (py_split DELIMITER p) = [])" for p
    unfolding m depth_def using parent_path_eq_Nil [of p] by metis
  show ?thesis
    using d build_tree_dict_bucket(2) [OF d] b m r by blast
qed

theorem path_index_buckets_witness:
  "[''d.txt'', ''a/c.txt'', ''a'', ''a/b.png''] \<noteq> []
   \<and> (\<exists>d. build_tree_dict [''d.txt'', ''a/c.txt'', ''a'', ''a/b.png''] = Inr d
          \<and> bucket d [] = [''a'', ''d.txt'']
          \<and> bucket d ''a'' = [''a/b.png'', ''a/c.txt''])"
proof -
  have ne: "[''d.txt'', ''a/c.txt'', ''a'', ''a/b.png''] \<noteq> []" by simp
  from path_index_buckets [OF ne] obtain d
    where d: "build_tree_dict [''d.txt'', ''a/c.txt'', ''a'', ''a/b.png''] = Inr d"
      and b: "\<And>k. bucket d k = filter (\<lambda>p. parent_path p = k)
                (sort [''d.txt'', ''a/c.txt'', ''a'', ''a/b.png''])"
    by blast
  have "bucket d [] = [''a'', ''d.txt'']" "bucket d ''a'' = [''a/b.png'', ''a/c.txt'']"
    unfolding b by code_simp+
  with d ne show ?thesis by blast
qed

subsection \<open>Navigation\<close>

text \<open>
  C3. After loading, entering any directory entry of the root listing and then the parent marker
  shows the root listing again, at the root.
\<close>

theorem root_listing_round_trip:
  assumes "init tmp arch = Inr s0"
      and "d \<in> set (listbox s0)"
      and "getmember_isfile arch d = Inr False"
  shows "\<exists>s1 s2. dbl_click_listbox s0 d = Inr s1
           \<and> dbl_click_listbox s1 ''..'' = Inr s2
           \<and> listbox s2 = listbox s0
           \<and> current_path s2 = current_path s0"
proof -
  note i = init_state [OF assms(1)]
  have root: "listbox s0 = bucket (tree_dict s0) []" by (rule i(7))
  have pd: "parent_path d = []"
    using assms(2) unfolding root i(8) by simp
  show ?thesis
  proof (cases "d = ''..''")
    case True
    have pe: "parent_path [] = []" by (simp add: parent_path_def)
    show ?thesis
      unfolding True
      by (simp add: dbl_click_listbox_parent i(2) pe bucket_dd_getitem root)
  next
    case False
    from assms(3) have f: "getmember_isfile (tar_root s0) d = Inr False" by (simp add: i(1))
    show ?thesis
      by (simp add: dbl_click_listbox_directory [OF False f] dbl_click_listbox_parent pd
          bucket_dd_getitem root i(2))
  qed
qed

theorem root_listing_round_trip_witness:
  "init ''/tmp/tfe'' scenario_archive = Inr scenario_state
   \<and> ''a'' \<in> set (listbox scenario_state)
   \<and> getmember_isfile scenario_archive ''a'' = Inr False
   \<and> (\<exists>s1 s2. dbl_click_listbox scenario_state ''a'' = Inr s1
           \<and> listbox s1 = [''..'', ''a/b.png'', ''a/c.txt'']
           \<and> dbl_click_listbox s1 ''..'' = Inr s2
           \<and> listbox s2 = [''a'', ''d.txt''])"
proof -
  have l: "''a'' \<in> set (listbox scenario_state)" by (simp add: scenario_state_def)
  have f: "getmember_isfile scenario_archive ''a'' = Inr False"
    by (simp add: getmember_isfile_def scenario_archive_def)
  from root_listing_round_trip [OF init_scenario l f] obtain s1 s2
    where 1: "dbl_click_listbox scenario_state ''a'' = Inr s1"
      and 2: "dbl_click_listbox s1 ''..'' = Inr s2"
      and 3: "listbox s2 = listbox scenario_state" by blast
  have "dbl_click_listbox scenario_state ''a'' = Inr (scenario_state\<lparr>current_path := ''a'',
      listbox := [''..'', ''a/b.png'', ''a/c.txt'']\<rparr>)"
    by (simp add: dbl_click_listbox_def scenario_state_def scenario_archive_def
        getmember_isfile_def dd_getitem_def populate_def)
  with 1 have "listbox s1 = [''..'', ''a/b.png'', ''a/c.txt'']" by auto
  moreover from 3 have "listbox s2 = [''a'', ''d.txt'']" by (simp add: scenario_state_def)
  ultimately show ?thesis using init_scenario l f 1 2 by blast
qed

subsection \<open>Quick view and explicit extraction of a file\<close>

text \<open>
  C8. Entering a selection that is a file writes the member into the staging area under its
  base filename (the part of the path after the last delimiter), sets the flag, starts the
  viewer on the staged path, and leaves the current path, the listing, the index and the window
  as they were.
\<close>

theorem quick_view_file:
  assumes "selection \<noteq> ''..''"
      and "getmember_isfile (tar_root s) selection = Inr True"
  shows "\<exists>s'. dbl_click_listbox s selection = Inr s'
           \<and> trace s' = trace s @
                 [WriteTmp (tmpdir s @ DELIMITER # base_name selection) selection,
                  SystemViewer (tmpdir s @ DELIMITER # base_name selection)]
           \<and> opened_at_least_one_tmp s'
           \<and> current_path s' = current_path s
           \<and> listbox s' = listbox s
           \<and> tree_dict s' = tree_dict s
           \<and> tmpdir s' = tmpdir s
           \<and> window_open s' = window_open s
           \<and> DELIMITER \<notin> set (base_name selection)
           \<and> (\<exists>dir. selection = dir @ base_name selection
                    \<and> (dir = [] \<or> dir = parent_path selection @ [DELIMITER]))"
proof -
  have "\<exists>dir. selection = dir @ base_name selection
      \<and> (dir = [] \<or> dir = parent_path selection @ [DELIMITER])"
  proof (cases "2 \<le> length (py_split DELIMITER selection)")
    case True
    from path_decompose [OF True]
    have "selection = (parent_path selection @ [DELIMITER]) @ base_name selection" by simp
    then show ?thesis by blast
  next
    case False
    then obtain x where "py_split DELIMITER selection = [x]"
      using py_split_not_Nil [of DELIMITER selection]
      by (cases "py_split DELIMITER selection") (auto simp: not_le)
    then have "py_split DELIMITER selection = [selection]"
      using py_join_py_split [of DELIMITER selection] by simp
    then have "selection = [] @ base_name selection" by (simp add: base_name_def)
    then show ?thesis by blast
  qed
  then show ?thesis
    by (simp add: dbl_click_listbox_file [OF assms] base_name_no_delimiter)
qed

theorem quick_view_file_witness:
  "''a/b.png'' \<noteq> ''..''
   \<and> getmember_isfile (tar_root scenario_state) ''a/b.png'' = Inr True
   \<and> (\<exists>s'. dbl_click_listbox scenario_state ''a/b.png'' = Inr s'
          \<and> trace s' = [WriteTmp ''/tmp/tfe/b.png'' ''a/b.png'', SystemViewer ''/tmp/tfe/b.png'']
          \<and> opened_at_least_one_tmp s'
          \<and> current_path s' = []
          \<and> listbox s' = [''a'', ''d.txt''])"
proof -
  have n: "''a/b.png'' \<noteq> ''..''" by simp
  have f: "getmember_isfile (tar_root scenario_state) ''a/b.png'' = Inr True"
    by (simp add: getmember_isfile_def scenario_state_def scenario_archive_def)
  have b: "base_name ''a/b.png'' = ''b.png''"
    by (simp add: base_name_def DELIMITER_def)
  from quick_view_file [OF n f] n f show ?thesis
    by (auto simp: b scenario_state_def DELIMITER_def)
qed

text \<open>
  C10. Extracting a selected file whose path holds no delimiter extracts it and starts the
  viewer on the empty string.
\<close>

theorem extract_root_file_opens_empty_path:
  assumes "selection \<noteq> ''..''"
      and "getmember_isfile (tar_root s) selection = Inr True"
      and "DELIMITER \<notin> set selection"
  shows "extract_selection s selection =
           Some (Inr (s\<lparr>trace := trace s @ [Extract selection, SystemViewer []]\<rparr>))"
  using assms by (simp add: extract_selection_def parent_path_no_delimiter)

theorem extract_root_file_opens_empty_path_witness:
  "''d.txt'' \<noteq> ''..''
   \<and> getmember_isfile (tar_root scenario_state) ''d.txt'' = Inr True
   \<and> DELIMITER \<notin> set ''d.txt''
   \<and> extract_selection scenario_state ''d.txt'' =
       Some (Inr (scenario_state\<lparr>trace := [Extract ''d.txt'', SystemViewer []]\<rparr>))"
proof -
  have n: "''d.txt'' \<noteq> ''..''" by simp
  have f: "getmember_isfile (tar_root scenario_state) ''d.txt'' = Inr True"
    by (simp add: getmember_isfile_def scenario_state_def scenario_archive_def)
  have d: "DELIMITER \<notin> set ''d.txt''" by (simp add: DELIMITER_def)
  have t: "trace scenario_state = []" by (simp add: scenario_state_def)
  from extract_root_file_opens_empty_path [OF n f d] n f d show ?thesis
    by (simp add: t)
qed

subsection \<open>Closing\<close>

lemma reachable_opened: "reachable opened_state"
proof -
  have s: "step scenario_state (DblClick ''d.txt'') = Some (Inr opened_state)"
    by (simp add: step_def dbl_click_listbox_def scenario_state_def scenario_archive_def
        getmember_isfile_def base_name_def DELIMITER_def opened_state_def Let_def)
  have w: "window_open scenario_state" by (simp add: scenario_state_def)
  show ?thesis by (rule reachable.handled [OF reachable_scenario w s])
qed

text \<open>
  C7. In every state of a session, closing goes without a prompt, tears the staging area down
  and closes the window exactly when no quick-view file was ever written; otherwise it asks,
  and a negative answer changes nothing but the record of the question.
\<close>

theorem close_prompts_iff_opened:
  assumes "reachable s"
  shows "on_close s answer =
           (if \<not> ever_opened_tmp s then s\<lparr>tmpdir_exists := False, window_open := False\<rparr>
            else if answer
              then s\<lparr>trace := trace s @ [AskOkCancel], tmpdir_exists := False, window_open := False\<rparr>
              else s\<lparr>trace := trace s @ [AskOkCancel]\<rparr>)
         \<and> ((trace (on_close s answer) = trace s
                \<and> \<not> tmpdir_exists (on_close s answer) \<and> \<not> window_open (on_close s answer))
              \<longleftrightarrow> \<not> ever_opened_tmp s)"
  using reachable_invariant(2) [OF assms]
  by (auto simp: on_close_def Let_def)

theorem close_prompts_iff_opened_witness:
  "reachable opened_state
   \<and> ever_opened_tmp opened_state
   \<and> on_close opened_state False = opened_state\<lparr>trace := trace opened_state @ [AskOkCancel]\<rparr>
   \<and> window_open (on_close opened_state False)
   \<and> tmpdir_exists (on_close opened_state False)
   \<and> current_path (on_close opened_state False) = current_path opened_state
   \<and> listbox (on_close opened_state False) = listbox opened_state
   \<and> reachable scenario_state
   \<and> on_close scenario_state False
       = scenario_state\<lparr>tmpdir_exists := False, window_open := False\<rparr>"
proof -
  have e: "ever_opened_tmp opened_state"
    by (simp add: ever_opened_tmp_def opened_state_def)
  have n: "\<not> ever_opened_tmp scenario_state"
    by (simp add: ever_opened_tmp_def scenario_state_def)
  have w: "window_open opened_state" "tmpdir_exists opened_state"
    by (simp_all add: opened_state_def scenario_state_def)
  from close_prompts_iff_opened [OF reachable_opened, of False]
    close_prompts_iff_opened [OF reachable_scenario, of False]
    e n w reachable_opened reachable_scenario
  show ?thesis by simp
qed


subsection \<open>Preview\<close>

lemma py_suffix_lower: "lower (py_suffix 4 s) = py_suffix 4 (lower (py_suffix 5 s))"
proof -
  have "length s - (length s - 5 + 4) + (length s - 5) = length s - 4" by arith
  then show ?thesis by (simp add: lower_def py_suffix_def drop_map)
qed

lemma is_image_name_suffix:
  "is_image_name s \<longleftrightarrow>
     py_suffix 4 (lower (py_suffix 5 s)) \<in> set [''.png'', ''.tif'', ''.jpg'']
     \<or> lower (py_suffix 5 s) \<in> set [''.jpeg'', ''.tiff'', ''.webp'']"
  unfolding is_image_name_def py_suffix_lower ..

text \<open>
  C5, as stated, fails: the same selection of the same archive, hence the same parent-marker
  flag, file flag and suffix, is shown as an image in a large preview area and not at all in
  one whose smaller side is at most 50.
\<close>

theorem preview_mode_small_area:
  "click_mode scenario_archive ''a/b.png'' 380 380 = Inr ImagePreview
   \<and> click_mode scenario_archive ''a/b.png'' 380 40 = Inr TooSmall"
  by (simp add: click_mode_def scenario_archive_def getmember_isfile_def is_image_name_def
      py_suffix_def lower_def lower_char_def)

text \<open>
  C5, amended. For the parent marker and for every member of the archive the handler returns
  a mode, and the mode is the classification of four inputs: whether the preview area is too
  small, the parent-marker flag, the file flag and the lower-cased last five characters. The
  image mode is chosen exactly when the area is large enough, the selection is not the parent
  marker, it is a file, and its lower-cased suffix is one of the six recognised ones.
\<close>

theorem preview_mode_classified:
  assumes "selection = ''..'' \<or> getmember_isfile arch selection = Inr is_file"
  shows "click_mode arch selection canvas_width canvas_height =
           Inr (preview_classification (min canvas_height canvas_width \<le> 50)
                  (selection = ''..'') is_file (lower (py_suffix 5 selection)))
         \<and> (click_mode arch selection canvas_width canvas_height = Inr ImagePreview \<longleftrightarrow>
               50 < min canvas_height canvas_width \<and> selection \<noteq> ''..'' \<and> is_file
               \<and> (lower (py_suffix 4 selection) \<in> set [''.png'', ''.tif'', ''.jpg'']
                    \<or> lower (py_suffix 5 selection) \<in> set [''.jpeg'', ''.tiff'', ''.webp'']))"
proof -
  have c: "click_mode arch selection canvas_width canvas_height =
           Inr (preview_classification (min canvas_height canvas_width \<le> 50)
                  (selection = ''..'') is_file (lower (py_suffix 5 selection)))"
    using assms is_image_name_suffix [of selection]
    by (auto simp: click_mode_def preview_classification_def)
  show ?thesis
    unfolding c by (auto simp: preview_classification_def py_suffix_lower)
qed

theorem preview_mode_classified_witness:
  "(''a/B.PNG'' = ''..'' \<or> getmember_isfile [(''a/B.PNG'', True)] ''a/B.PNG'' = Inr True)
   \<and> click_mode [(''a/B.PNG'', True)] ''a/B.PNG'' 380 380 = Inr ImagePreview
   \<and> preview_classification False False True ''b.png'' = ImagePreview"
proof -
  have h: "''a/B.PNG'' = ''..'' \<or> getmember_isfile [(''a/B.PNG'', True)] ''a/B.PNG'' = Inr True"
    by (simp add: getmember_isfile_def)
  have l: "lower (py_suffix 5 ''a/B.PNG'') = ''b.png''"
    by code_simp
  have p: "preview_classification False False True ''b.png'' = ImagePreview"
    by (simp add: preview_classification_def py_suffix_def)
  from preview_mode_classified [OF h, of 380 380] h p show ?thesis
    by (simp add: l)
qed

subsection \<open>The index during a session\<close>

text \<open>
  C6, as stated, fails: extracting the directory \<^verbatim>\<open>a\<close> of the scenario reads the index at the
  two files in it, and each read of a missing key stores an empty entry; the dictionary has
  four entries afterwards, not the two it was built with.
\<close>

theorem index_gains_entries:
  "step scenario_state (ExtractSelection ''a'') =
     Some (Inr (scenario_state
       \<lparr>tree_dict := [([], [''a'', ''d.txt'']), (''a'', [''a/b.png'', ''a/c.txt'']),
                      (''a/b.png'', []), (''a/c.txt'', [])],
        trace := [Extract ''a'', Extract ''a/b.png'', Extract ''a/c.txt'', SystemViewer ''a'']\<rparr>))
   \<and> tree_dict scenario_state =
       [([], [''a'', ''d.txt'']), (''a'', [''a/b.png'', ''a/c.txt''])]"
  by (simp add: step_def extract_selection_def scenario_state_def scenario_archive_def
      getmember_isfile_def extract_loop.simps dd_getitem_def)

text \<open>
  C6, amended. Every action that returns leaves the entries of the index as they were, in
  their order, and only appends entries with an empty list of children; so the children that
  the index gives for any path never change.
\<close>

theorem index_buckets_unchanged:
  assumes "step s a = Some (Inr s')"
  shows "(\<exists>new. tree_dict s' = tree_dict s @ map (\<lambda>k. (k, [])) new)
         \<and> (\<forall>k. bucket (tree_dict s') k = bucket (tree_dict s) k)"
proof -
  from step_frame(2) [OF assms] obtain new
    where n: "tree_dict s' = tree_dict s @ map (\<lambda>k. (k, [])) new" by blast
  then have "\<forall>k. bucket (tree_dict s') k = bucket (tree_dict s) k"
    by (simp add: bucket_append_empty)
  with n show ?thesis by blast
qed

theorem index_buckets_unchanged_witness:
  "step scenario_state (DblClick ''a'') =
      Some (Inr (scenario_state\<lparr>current_path := ''a'',
                   listbox := [''..'', ''a/b.png'', ''a/c.txt'']\<rparr>))
   \<and> (\<exists>new. tree_dict (scenario_state\<lparr>current_path := ''a'',
                   listbox := [''..'', ''a/b.png'', ''a/c.txt'']\<rparr>)
              = tree_dict scenario_state @ map (\<lambda>k. (k, [])) new)"
proof -
  have s: "step scenario_state (DblClick ''a'') =
      Some (Inr (scenario_state\<lparr>current_path := ''a'',
                   listbox := [''..'', ''a/b.png'', ''a/c.txt'']\<rparr>))"
    by (simp add: step_def dbl_click_listbox_def scenario_state_def scenario_archive_def
        getmember_isfile_def dd_getitem_def populate_def)
  from index_buckets_unchanged [OF s] s show ?thesis by blast
qed

subsection \<open>Extraction of a directory\<close>

text \<open>The loop handles the queue one level at a time.\<close>

lemma extract_loop_level:
  "\<exists>new. extract_loop d (xs @ pending) tr =
     extract_loop (d @ map (\<lambda>k. (k, [])) new) (pending @ next_level (bucket d) xs)
       (tr @ map Extract xs)"
proof (induction xs arbitrary: d pending tr)
  case Nil
  have "extract_loop d ([] @ pending) tr =
     extract_loop (d @ map (\<lambda>k. (k, [])) []) (pending @ next_level (bucket d) [])
       (tr @ map Extract [])"
    by (simp add: next_level_def)
  then show ?case by blast
next
  case (Cons x xs)
  obtain n1 where n1: "snd (dd_getitem d x) = d @ map (\<lambda>k. (k, [])) n1"
    using dd_getitem_appends [of d x] by blast
  let ?d1 = "d @ map (\<lambda>k. (k, [])) n1"
  have b1: "bucket ?d1 = bucket d"
    by (rule ext) (rule bucket_append_empty)
  have step: "extract_loop d ((x # xs) @ pending) tr =
      extract_loop ?d1 (xs @ (pending @ bucket d x)) (tr @ [Extract x])"
    using n1 fst_dd_getitem [of d x]
    by (subst extract_loop.simps) (simp add: case_prod_beta)
  from Cons [of ?d1 "pending @ bucket d x" "tr @ [Extract x]"] obtain n2
    where "extract_loop ?d1 (xs @ (pending @ bucket d x)) (tr @ [Extract x]) =
      extract_loop (?d1 @ map (\<lambda>k. (k, [])) n2)
        ((pending @ bucket d x) @ next_level (bucket ?d1) xs)
        ((tr @ [Extract x]) @ map Extract xs)" by blast
  with step have "extract_loop d ((x # xs) @ pending) tr =
      extract_loop (d @ map (\<lambda>k. (k, [])) (n1 @ n2))
        (pending @ next_level (bucket d) (x # xs)) (tr @ map Extract (x # xs))"
    by (simp add: b1 next_level_def)
  then show ?case by blast
qed

lemma extract_loop_levels:
  assumes "(next_level (bucket d) ^^ n) q = []"
  shows "\<exists>new. extract_loop d q tr =
           Some (d @ map (\<lambda>k. (k, [])) new, tr @ map Extract (level_order (bucket d) n q))"
  using assms
proof (induction n arbitrary: d q tr)
  case 0
  then have "extract_loop d q tr =
      Some (d @ map (\<lambda>k. (k, [])) [], tr @ map Extract (level_order (bucket d) 0 q))"
    by (simp add: extract_loop.simps)
  then show ?case by blast
next
  case (Suc n)
  from extract_loop_level [of d q "[]" tr] obtain n1
    where l: "extract_loop d q tr =
      extract_loop (d @ map (\<lambda>k. (k, [])) n1) (next_level (bucket d) q) (tr @ map Extract q)"
    by auto
  let ?d1 = "d @ map (\<lambda>k. (k, [])) n1"
  have b1: "bucket ?d1 = bucket d"
    by (rule ext) (rule bucket_append_empty)
  from Suc.prems have "(next_level (bucket ?d1) ^^ n) (next_level (bucket d) q) = []"
    by (simp add: b1 funpow_swap1)
  from Suc.IH [OF this, of "tr @ map Extract q"] obtain n2
    where "extract_loop ?d1 (next_level (bucket d) q) (tr @ map Extract q) =
      Some (?d1 @ map (\<lambda>k. (k, [])) n2,
            (tr @ map Extract q) @ map Extract (level_order (bucket ?d1) n (next_level (bucket d) q)))"
    by blast
  with l have "extract_loop d q tr =
      Some (d @ map (\<lambda>k. (k, [])) (n1 @ n2),
            tr @ map Extract (level_order (bucket d) (Suc n) q))"
    by (simp add: b1)
  then show ?case by blast
qed

text \<open>Children, levels and depth.\<close>

lemma in_children_of: "c \<in> set (children_of names k) \<longleftrightarrow> c \<in> set names \<and> parent_path c = k"
  by (auto simp: children_of_def)

lemma distinct_children_of: "distinct names \<Longrightarrow> distinct (children_of names k)"
  by (simp add: children_of_def)

lemma parent_path_Nil: "parent_path [] = []"
  by (simp add: parent_path_def)

lemma child_depth:
  assumes "parent_path c = k" and "k \<noteq> []"
  shows "c \<noteq> []" and "depth c = Suc (depth k)"
  using assms depth_parent_path [of c] parent_path_Nil by auto

lemma in_next_level:
  "c \<in> set (next_level (children_of names) q) \<longleftrightarrow>
     c \<in> set names \<and> parent_path c \<in> set q"
  by (auto simp: next_level_def in_children_of)

lemma next_level_depth:
  assumes "\<forall>x \<in> set q. x \<noteq> [] \<and> depth x = D"
  shows "\<forall>c \<in> set (next_level (children_of names) q). c \<noteq> [] \<and> depth c = Suc D"
  using assms child_depth by (auto simp: in_next_level)

lemma distinct_next_level:
  assumes "distinct names" and "distinct q"
  shows "distinct (next_level (children_of names) q)"
  using assms(2)
proof (induction q)
  case Nil
  show ?case by (simp add: next_level_def)
next
  case (Cons x q)
  have "set (children_of names x) \<inter> set (next_level (children_of names) q) = {}"
    using Cons.prems by (auto simp: in_next_level in_children_of)
  moreover have "distinct (next_level (children_of names) q)"
    using Cons by simp
  ultimately show ?case
    using distinct_children_of [OF assms(1), of x]
    by (simp add: next_level_def)
qed

text \<open>The order of a level-order walk.\<close>

lemma level_order_depth:
  assumes "\<forall>x \<in> set q. x \<noteq> [] \<and> depth x = D"
  shows "sorted (map depth (level_order (children_of names) n q))
         \<and> (\<forall>x \<in> set (level_order (children_of names) n q). x \<noteq> [] \<and> D \<le> depth x)"
  using assms
proof (induction n arbitrary: q D)
  case 0
  show ?case by simp
next
  case (Suc n)
  have q: "sorted (map depth q)"
    using Suc.prems by (induction q) auto
  from Suc.IH [OF next_level_depth [OF Suc.prems], of names]
  have r: "sorted (map depth (level_order (children_of names) n (next_level (children_of names) q)))"
    and g: "\<forall>x \<in> set (level_order (children_of names) n (next_level (children_of names) q)).
        x \<noteq> [] \<and> Suc D \<le> depth x"
    by blast+
  show ?case
    using q r g Suc.prems by (auto simp: sorted_append)
qed

lemma level_order_distinct:
  assumes "distinct names" and "distinct q" and "\<forall>x \<in> set q. x \<noteq> [] \<and> depth x = D"
  shows "distinct (level_order (children_of names) n q)"
  using assms(2,3)
proof (induction n arbitrary: q D)
  case 0
  show ?case by simp
next
  case (Suc n)
  let ?q' = "next_level (children_of names) q"
  have "distinct (level_order (children_of names) n ?q')"
    by (rule Suc.IH [OF distinct_next_level [OF assms(1) Suc.prems(1)]
          next_level_depth [OF Suc.prems(2)]])
  moreover have "\<forall>x \<in> set (level_order (children_of names) n ?q'). Suc D \<le> depth x"
    using level_order_depth [OF next_level_depth [OF Suc.prems(2)], of names n] by blast
  ultimately show ?case
    using Suc.prems by fastforce
qed

lemma level_order_parent_first:
  "j < length (level_order (children_of names) n q) \<Longrightarrow>
   level_order (children_of names) n q ! j \<in> set q
   \<or> parent_path (level_order (children_of names) n q ! j)
        \<in> set (take j (level_order (children_of names) n q))"
proof (induction n arbitrary: q j)
  case 0
  then show ?case by simp
next
  case (Suc n)
  let ?q' = "next_level (children_of names) q"
  let ?rest = "level_order (children_of names) n ?q'"
  show ?case
  proof (cases "j < length q")
    case True
    then show ?thesis by (simp add: nth_append)
  next
    case False
    with Suc.prems have j: "j - length q < length ?rest" by simp
    have e: "(q @ ?rest) ! j = ?rest ! (j - length q)"
      using False by (simp add: nth_append)
    have t: "take j (q @ ?rest) = q @ take (j - length q) ?rest"
      using False by simp
    from Suc.IH [OF j]
    have "parent_path (?rest ! (j - length q)) \<in> set q
        \<or> parent_path (?rest ! (j - length q)) \<in> set (take (j - length q) ?rest)"
      by (auto simp: in_next_level)
    then show ?thesis
      unfolding level_order.simps e t by auto
  qed
qed

lemma set_level_order:
  "set (level_order ch n q) = (\<Union>i<n. set ((next_level ch ^^ i) q))"
proof (induction n arbitrary: q)
  case 0
  show ?case by simp
next
  case (Suc n)
  have "(\<Union>i<Suc n. set ((next_level ch ^^ i) q)) =
      set q \<union> (\<Union>i<n. set ((next_level ch ^^ Suc i) q))"
    by (auto simp: less_Suc_eq_0_disj simp del: funpow.simps)
  then show ?case
    by (simp add: Suc funpow_swap1)
qed

lemma descendant_trans:
  "descendant names c p \<Longrightarrow> descendant names x c \<Longrightarrow> descendant names x p"
  by (induction rule: descendant.induct) (auto intro: descendant.intros)

lemma level_descendant:
  "p \<in> set ((next_level (children_of names) ^^ i) [selection]) \<Longrightarrow> descendant names selection p"
proof (induction i arbitrary: p)
  case 0
  then show ?case by (simp add: descendant.self)
next
  case (Suc i)
  then show ?case
    by (auto simp: in_next_level intro: descendant.child)
qed

lemma descendant_level:
  "descendant names selection p \<Longrightarrow>
   \<exists>i. p \<in> set ((next_level (children_of names) ^^ i) [selection])"
proof (induction rule: descendant.induct)
  case self
  have "selection \<in> set ((next_level (children_of names) ^^ 0) [selection])" by simp
  then show ?case by blast
next
  case (child p c)
  then obtain i where "p \<in> set ((next_level (children_of names) ^^ i) [selection])" by blast
  with child have "c \<in> set ((next_level (children_of names) ^^ Suc i) [selection])"
    by (simp add: in_next_level)
  then show ?case by blast
qed

lemma level_empty_stays:
  "(next_level ch ^^ n) q = [] \<Longrightarrow> n \<le> m \<Longrightarrow> (next_level ch ^^ m) q = []"
proof (induction m)
  case 0
  then show ?case by simp
next
  case (Suc m)
  show ?case
  proof (cases "n = Suc m")
    case True
    with Suc.prems show ?thesis by simp
  next
    case False
    with Suc have "(next_level ch ^^ m) q = []" by simp
    moreover have "next_level ch [] = []" by (simp add: next_level_def)
    ultimately show ?thesis by simp
  qed
qed

lemma set_level_order_descendants:
  assumes "(next_level (children_of names) ^^ n) [selection] = []"
  shows "set (level_order (children_of names) n [selection]) = {p. descendant names selection p}"
proof (intro equalityI subsetI)
  fix p
  assume "p \<in> set (level_order (children_of names) n [selection])"
  then show "p \<in> {p. descendant names selection p}"
    by (auto simp: set_level_order dest: level_descendant)
next
  fix p
  assume "p \<in> {p. descendant names selection p}"
  then obtain i where i: "p \<in> set ((next_level (children_of names) ^^ i) [selection])"
    using descendant_level by blast
  have "i < n"
  proof (rule ccontr)
    assume "\<not> i < n"
    then have "(next_level (children_of names) ^^ i) [selection] = []"
      using level_empty_stays [OF assms, of i] by simp
    with i show False by simp
  qed
  with i show "p \<in> set (level_order (children_of names) n [selection])"
    unfolding set_level_order by blast
qed

text \<open>The levels under a non-empty path run out: each is one segment deeper.\<close>

lemma level_depth:
  assumes "selection \<noteq> []"
  shows "\<forall>x \<in> set ((next_level (children_of names) ^^ i) [selection]).
           x \<noteq> [] \<and> depth x = depth selection + i"
proof (induction i)
  case 0
  show ?case using assms by simp
next
  case (Suc i)
  from next_level_depth [OF Suc, of names] show ?case by simp
qed

lemma levels_end:
  assumes "selection \<noteq> []"
  shows "(next_level (children_of names) ^^ Suc (sum_list (map length names))) [selection] = []"
proof (rule ccontr)
  let ?B = "sum_list (map length names)"
  assume "(next_level (children_of names) ^^ Suc ?B) [selection] \<noteq> []"
  then obtain x where x: "x \<in> set ((next_level (children_of names) ^^ Suc ?B) [selection])"
    by (meson last_in_set)
  then have "x \<in> set names" by (simp add: in_next_level)
  then have "length x \<le> ?B"
    by (simp add: member_le_sum_list)
  moreover from level_depth [OF assms, where names = names and i = "Suc ?B"] x
  have "depth x = depth selection + Suc ?B" by blast
  moreover have "0 < depth selection"
    by (simp add: depth_def py_split_not_Nil)
  ultimately show False
    using depth_le [of x] by simp
qed

lemma init_dup: "init ''/tmp/tfe'' dup_archive = Inr dup_state"
  by code_simp

lemma init_deep: "init ''/tmp/tfe'' deep_archive = Inr deep_state"
  by code_simp

lemma extract_scenario_directory:
  "extract_selection scenario_state ''a'' =
     Some (Inr (scenario_state
       \<lparr>tree_dict := tree_dict scenario_state @ [(''a/b.png'', []), (''a/c.txt'', [])],
        trace := [Extract ''a'', Extract ''a/b.png'', Extract ''a/c.txt'', SystemViewer ''a'']\<rparr>))"
  by (simp add: extract_selection_def scenario_state_def scenario_archive_def
      getmember_isfile_def extract_loop.simps dd_getitem_def)

lemma reachable_bucket:
  assumes "reachable s"
  shows "bucket (tree_dict s) = children_of (getnames (tar_root s))"
  by (rule ext) (simp add: reachable_invariant(1) [OF assms] children_of_def)

lemma extract_directory:
  assumes "reachable s"
      and "selection \<noteq> ''..''"
      and "selection \<noteq> []"
      and "getmember_isfile (tar_root s) selection = Inr False"
  shows "\<exists>new. extract_selection s selection =
           Some (Inr (s\<lparr>tree_dict := tree_dict s @ map (\<lambda>k. (k, [])) new,
                        trace := trace s @
                          map Extract (level_order (children_of (getnames (tar_root s)))
                                 (Suc (sum_list (map length (getnames (tar_root s)))))
                                 [selection])
                          @ [SystemViewer selection]\<rparr>))"
proof -
  let ?names = "getnames (tar_root s)"
  let ?n = "Suc (sum_list (map length ?names))"
  have "(next_level (bucket (tree_dict s)) ^^ ?n) [selection] = []"
    unfolding reachable_bucket [OF assms(1)] by (rule levels_end [OF assms(3)])
  from extract_loop_levels [OF this, of "[]"] obtain new
    where "extract_loop (tree_dict s) [selection] [] =
      Some (tree_dict s @ map (\<lambda>k. (k, [])) new,
            map Extract (level_order (children_of ?names) ?n [selection]))"
    unfolding reachable_bucket [OF assms(1)] by auto
  then have "extract_selection s selection =
           Some (Inr (s\<lparr>tree_dict := tree_dict s @ map (\<lambda>k. (k, [])) new,
                        trace := trace s @
                          map Extract (level_order (children_of ?names) ?n [selection])
                          @ [SystemViewer selection]\<rparr>))"
    using assms(2,4) by (simp add: extract_selection_def)
  then show ?thesis by blast
qed

lemma parent_before_child:
  assumes "distinct names" and "selection \<noteq> []"
      and "i < length (level_order (children_of names) n [selection])"
      and "j < length (level_order (children_of names) n [selection])"
      and "parent_path (level_order (children_of names) n [selection] ! j)
           = level_order (children_of names) n [selection] ! i"
  shows "i < j"
proof -
  let ?order = "level_order (children_of names) n [selection]"
  have q: "\<forall>x \<in> set [selection]. x \<noteq> [] \<and> depth x = depth selection"
    using assms(2) by simp
  have d: "distinct ?order"
    by (rule level_order_distinct [OF assms(1) _ q]) simp
  have g: "\<forall>x \<in> set ?order. x \<noteq> [] \<and> depth selection \<le> depth x"
    using level_order_depth [OF q, of names n] by blast
  have oi: "?order ! i \<in> set ?order" using assms(3) by simp
  from level_order_parent_first [OF assms(4)]
  consider (top) "?order ! j = selection"
    | (below) "parent_path (?order ! j) \<in> set (take j ?order)" by auto
  then show ?thesis
  proof cases
    case top
    with assms(5) have p: "parent_path selection = ?order ! i" by simp
    with g oi have "parent_path selection \<noteq> []" by metis
    from depth_parent_path [OF this] p g oi show ?thesis
      by (metis Suc_n_not_le_n)
  next
    case below
    then obtain i' where i': "i' < length (take j ?order)"
      and e: "take j ?order ! i' = parent_path (?order ! j)"
      by (auto simp: in_set_conv_nth)
    then have "i' < j" "i' < length ?order" "?order ! i' = ?order ! i"
      using assms(5) by auto
    with d assms(3) have "i' = i" by (simp add: nth_eq_iff_index_eq)
    with \<open>i' < j\<close> show ?thesis by simp
  qed
qed

text \<open>
  A path that is among its own children never leaves the queue, and the loop does not end. The
  member with the empty name is its own child: extracting it as a directory never returns.
\<close>

lemma extract_loop_own_child:
  assumes "extract_loop d q tr = Some r"
  shows "\<not> (k \<in> set (bucket d k) \<and> k \<in> set q)"
proof (rule extract_loop.raw_induct
    [where P = "\<lambda>d q tr r. \<not> (k \<in> set (bucket d k) \<and> k \<in> set q)", OF _ assms])
  fix loop :: "tree_dict \<Rightarrow> string list \<Rightarrow> event list \<Rightarrow> (tree_dict \<times> event list) option"
  fix d q tr r
  assume IH: "\<And>d q tr r. loop d q tr = Some r \<Longrightarrow> \<not> (k \<in> set (bucket d k) \<and> k \<in> set q)"
  assume eq: "(case q of [] \<Rightarrow> Some (d, tr)
      | s # rest \<Rightarrow> let (children, d') = dd_getitem d s
          in loop d' (rest @ children) (tr @ [Extract s])) = Some r"
  show "\<not> (k \<in> set (bucket d k) \<and> k \<in> set q)"
  proof
    assume a: "k \<in> set (bucket d k) \<and> k \<in> set q"
    then obtain x rest where q: "q = x # rest" by (cases q) auto
    from eq q have "loop (snd (dd_getitem d x)) (rest @ bucket d x) (tr @ [Extract x]) = Some r"
      by (simp add: case_prod_beta fst_dd_getitem)
    from IH [OF this] a q show False
      by (auto simp: bucket_dd_getitem)
  qed
qed

lemma extract_selection_empty_name:
  assumes "reachable s" and "getmember_isfile (tar_root s) [] = Inr False"
  shows "extract_selection s [] = None"
proof -
  from assms(2) have "[] \<in> set (getnames (tar_root s))"
    by (auto simp: getmember_isfile_def getnames_def split: option.splits
        dest!: map_of_SomeD intro: rev_image_eqI)
  then have "[] \<in> set (bucket (tree_dict s) [])"
    by (simp add: reachable_bucket [OF assms(1)] in_children_of parent_path_Nil)
  then have "extract_loop (tree_dict s) [[]] [] = None"
    using extract_loop_own_child [of "tree_dict s" "[[]]" "[]" _ "[]"]
    by (cases "extract_loop (tree_dict s) [[]] []") auto
  with assms(2) show ?thesis
    by (simp add: extract_selection_def)
qed

text \<open>
  The walk follows the index and nothing else. A member that lies below the selection by its
  path, but whose parent path is not a member, is in the bucket of a key that the walk never
  reads: it is not a descendant in the index and it is not extracted.
\<close>

lemma init_gap: "init ''/tmp/tfe'' gap_archive = Inr gap_state"
  by code_simp

lemma extract_deep_directory:
  "extract_selection deep_state ''a'' =
     Some (Inr (deep_state
       \<lparr>tree_dict := tree_dict deep_state @ [(''a/c/y'', []), (''a/b/x/z'', [])],
        trace := [Extract ''a'', Extract ''a/b'', Extract ''a/c'', Extract ''a/b/x'',
                  Extract ''a/c/y'', Extract ''a/b/x/z'', SystemViewer ''a'']\<rparr>))"
  by (simp add: extract_selection_def deep_state_def deep_archive_def
      getmember_isfile_def extract_loop.simps dd_getitem_def)

lemma member_below_missing_directory:
  "init ''/tmp/tfe'' gap_archive = Inr gap_state
   \<and> parent_path (parent_path ''a/b/c'') = ''a''
   \<and> extract_selection gap_state ''a'' =
       Some (Inr (gap_state
         \<lparr>tree_dict := tree_dict gap_state @ [(''a'', [])],
          trace := [Extract ''a'', SystemViewer ''a'']\<rparr>))
   \<and> \<not> descendant (getnames gap_archive) ''a'' ''a/b/c''"
proof -
  have p: "parent_path ''a/b/c'' = ''a/b''" "parent_path ''a/b'' = ''a''"
    by (simp_all add: parent_path_def DELIMITER_def)
  have e: "extract_selection gap_state ''a'' =
       Some (Inr (gap_state
         \<lparr>tree_dict := tree_dict gap_state @ [(''a'', [])],
          trace := [Extract ''a'', SystemViewer ''a'']\<rparr>))"
    by (simp add: extract_selection_def gap_state_def gap_archive_def
        getmember_isfile_def extract_loop.simps dd_getitem_def)
  have n: "\<not> descendant (getnames gap_archive) ''a'' ''a/b''"
  proof
    assume "descendant (getnames gap_archive) ''a'' ''a/b''"
    then show False
      by (cases rule: descendant.cases) (auto simp: getnames_def gap_archive_def)
  qed
  have "\<not> descendant (getnames gap_archive) ''a'' ''a/b/c''"
  proof
    assume "descendant (getnames gap_archive) ''a'' ''a/b/c''"
    then show False
      using n p(1) by (cases rule: descendant.cases) auto
  qed
  with init_gap p e show ?thesis by simp
qed

text \<open>
  C2, as stated, fails: in the archive that holds \<^verbatim>\<open>a/b\<close> twice, the bucket of \<^verbatim>\<open>a\<close> lists it
  twice, and extracting \<^verbatim>\<open>a\<close> extracts \<^verbatim>\<open>a/b\<close> twice.
\<close>

theorem duplicate_member_extracted_twice:
  "init ''/tmp/tfe'' dup_archive = Inr dup_state
   \<and> extract_selection dup_state ''a'' =
       Some (Inr (dup_state
         \<lparr>tree_dict := tree_dict dup_state @ [(''a/b'', [])],
          trace := [Extract ''a'', Extract ''a/b'', Extract ''a/b'', SystemViewer ''a'']\<rparr>))"
  using init_dup
  by (simp add: extract_selection_def dup_state_def dup_archive_def
      getmember_isfile_def extract_loop.simps dd_getitem_def)

text \<open>
  C2, amended. In every state of a session on an archive whose member names are distinct,
  extracting a selected directory entry with a non-empty name ends. The paths are extracted in
  the level order of the queue: the selection, then the children of the paths of each level,
  in the order of that level and each bucket in its sorted order; so the depth never decreases
  along the extraction. The extracted paths are the descendants of the selection in the index
  (the members linked to it by a chain of members, each the parent path of the next), each
  exactly once and each after its parent path, and the viewer is started on the selection after
  the last extraction.
\<close>

theorem extract_directory_breadth_first:
  assumes "reachable s"
      and "distinct (getnames (tar_root s))"
      and "selection \<noteq> ''..''"
      and "selection \<noteq> []"
      and "getmember_isfile (tar_root s) selection = Inr False"
  shows "\<exists>s' order.
           extract_selection s selection = Some (Inr s')
           \<and> trace s' = trace s @ map Extract order @ [SystemViewer selection]
           \<and> order = level_order (children_of (getnames (tar_root s)))
                       (Suc (sum_list (map length (getnames (tar_root s))))) [selection]
           \<and> sorted (map depth order)
           \<and> order \<noteq> [] \<and> hd order = selection
           \<and> distinct order
           \<and> set order = {p. descendant (getnames (tar_root s)) selection p}
           \<and> (\<forall>i j. i < length order \<and> j < length order
                    \<and> parent_path (order ! j) = order ! i \<longrightarrow> i < j)"
proof -
  let ?names = "getnames (tar_root s)"
  let ?n = "Suc (sum_list (map length ?names))"
  let ?order = "level_order (children_of ?names) ?n [selection]"
  from extract_directory [OF assms(1,3,4,5)] obtain s'
    where s': "extract_selection s selection = Some (Inr s')"
      and t: "trace s' = trace s @ map Extract ?order @ [SystemViewer selection]"
    by auto
  have q: "\<forall>x \<in> set [selection]. x \<noteq> [] \<and> depth x = depth selection"
    using assms(4) by simp
  have l: "sorted (map depth ?order)"
    using level_order_depth [OF q, of ?names ?n] by blast
  have h: "?order \<noteq> []" "hd ?order = selection" by simp_all
  have d: "distinct ?order"
    by (rule level_order_distinct [OF assms(2) _ q]) simp
  have e: "set ?order = {p. descendant ?names selection p}"
    by (rule set_level_order_descendants [OF levels_end [OF assms(4)]])
  have b: "\<forall>i j. i < length ?order \<and> j < length ?order
      \<and> parent_path (?order ! j) = ?order ! i \<longrightarrow> i < j"
    using parent_before_child [OF assms(2,4)] by blast
  from s' t l h d e b show ?thesis by blast
qed

theorem extract_directory_breadth_first_witness:
  "reachable deep_state
   \<and> distinct (getnames (tar_root deep_state))
   \<and> ''a'' \<noteq> ''..'' \<and> ''a'' \<noteq> []
   \<and> getmember_isfile (tar_root deep_state) ''a'' = Inr False
   \<and> (\<exists>s' order.
         extract_selection deep_state ''a'' = Some (Inr s')
         \<and> trace s' = [Extract ''a'', Extract ''a/b'', Extract ''a/c'', Extract ''a/b/x'',
                        Extract ''a/c/y'', Extract ''a/b/x/z'', SystemViewer ''a'']
         \<and> order = [''a'', ''a/b'', ''a/c'', ''a/b/x'', ''a/c/y'', ''a/b/x/z'']
         \<and> order = level_order (children_of (getnames (tar_root deep_state)))
                     (Suc (sum_list (map length (getnames (tar_root deep_state))))) [''a'']
         \<and> sorted (map depth order)
         \<and> distinct order
         \<and> set order = {p. descendant (getnames (tar_root deep_state)) ''a'' p})"
proof -
  have r: "reachable deep_state" by (rule reachable.start [OF init_deep])
  have d: "distinct (getnames (tar_root deep_state))"
    by (simp add: deep_state_def deep_archive_def getnames_def)
  have n: "''a'' \<noteq> ''..''" "''a'' \<noteq> []" by simp_all
  have f: "getmember_isfile (tar_root deep_state) ''a'' = Inr False"
    by (simp add: getmember_isfile_def deep_state_def deep_archive_def)
  from extract_directory_breadth_first [OF r d n f] obtain s' order
    where s': "extract_selection deep_state ''a'' = Some (Inr s')"
      and t: "trace s' = trace deep_state @ map Extract order @ [SystemViewer ''a'']"
      and l: "order = level_order (children_of (getnames (tar_root deep_state)))
                     (Suc (sum_list (map length (getnames (tar_root deep_state))))) [''a'']"
      and o: "sorted (map depth order)" "distinct order"
      and e: "set order = {p. descendant (getnames (tar_root deep_state)) ''a'' p}"
    by blast
  from s' have t': "trace s' =
      [Extract ''a'', Extract ''a/b'', Extract ''a/c'', Extract ''a/b/x'',
       Extract ''a/c/y'', Extract ''a/b/x/z'', SystemViewer ''a'']"
    by (auto simp: extract_deep_directory)
  have "trace deep_state = []" by (simp add: deep_state_def)
  with t t' have c: "order = [''a'', ''a/b'', ''a/c'', ''a/b/x'', ''a/c/y'', ''a/b/x/z'']"
    by (auto simp: map_eq_Cons_conv)
  from r d n f s' t' c l o e show ?thesis by blast
qed

text \<open>
  C9, as stated, fails: under \<^verbatim>\<open>a\<close>, the member \<^verbatim>\<open>a/c/y\<close> of the later child \<^verbatim>\<open>a/c\<close> is extracted
  before the member \<^verbatim>\<open>a/b/x/z\<close> of the earlier child \<^verbatim>\<open>a/b\<close>.
\<close>

theorem extraction_not_depth_first:
  "init ''/tmp/tfe'' deep_archive = Inr deep_state
   \<and> extract_selection deep_state ''a'' =
       Some (Inr (deep_state
         \<lparr>tree_dict := tree_dict deep_state @ [(''a/c/y'', []), (''a/b/x/z'', [])],
          trace := [Extract ''a'', Extract ''a/b'', Extract ''a/c'', Extract ''a/b/x'',
                    Extract ''a/c/y'', Extract ''a/b/x/z'', SystemViewer ''a'']\<rparr>))"
  using init_deep
  by (simp add: extract_selection_def deep_state_def deep_archive_def
      getmember_isfile_def extract_loop.simps dd_getitem_def)

text \<open>
  C9, amended. The walk is breadth-first: extracting a selected directory entry with a
  non-empty name ends, extracts exactly the descendants of the selection, and extracts them
  in order of non-decreasing depth, level by level.
\<close>

theorem extract_directory_level_by_level:
  assumes "reachable s"
      and "selection \<noteq> ''..''"
      and "selection \<noteq> []"
      and "getmember_isfile (tar_root s) selection = Inr False"
  shows "\<exists>s' order.
           extract_selection s selection = Some (Inr s')
           \<and> trace s' = trace s @ map Extract order @ [SystemViewer selection]
           \<and> set order = {p. descendant (getnames (tar_root s)) selection p}
           \<and> sorted (map depth order)"
proof -
  let ?names = "getnames (tar_root s)"
  let ?n = "Suc (sum_list (map length ?names))"
  let ?order = "level_order (children_of ?names) ?n [selection]"
  from extract_directory [OF assms] obtain s'
    where s': "extract_selection s selection = Some (Inr s')"
      and t: "trace s' = trace s @ map Extract ?order @ [SystemViewer selection]"
    by auto
  have q: "\<forall>x \<in> set [selection]. x \<noteq> [] \<and> depth x = depth selection"
    using assms(3) by simp
  have e: "set ?order = {p. descendant ?names selection p}"
    by (rule set_level_order_descendants [OF levels_end [OF assms(3)]])
  have "sorted (map depth ?order)"
    using level_order_depth [OF q, of ?names ?n] by blast
  with s' t e show ?thesis by blast
qed

theorem extract_directory_level_by_level_witness:
  "reachable deep_state
   \<and> ''a'' \<noteq> ''..'' \<and> ''a'' \<noteq> []
   \<and> getmember_isfile (tar_root deep_state) ''a'' = Inr False
   \<and> (\<exists>s' order.
         extract_selection deep_state ''a'' = Some (Inr s')
         \<and> trace s' = trace deep_state @ map Extract order @ [SystemViewer ''a'']
         \<and> sorted (map depth order))"
proof -
  have r: "reachable deep_state" by (rule reachable.start [OF init_deep])
  have n: "''a'' \<noteq> ''..''" "''a'' \<noteq> []" by simp_all
  have f: "getmember_isfile (tar_root deep_state) ''a'' = Inr False"
    by (simp add: getmember_isfile_def deep_state_def deep_archive_def)
  from extract_directory_level_by_level [OF r n f] r n f show ?thesis by blast
qed

end
